theory Spec2Isabelle
  imports Complex_Main
begin

section \<open>FastBERT early-exit inference: the permutation step of \<open>fast_bert.py\<close>\<close>

text \<open>
  The development embeds the two nested helpers of
  \<^verbatim>\<open>FastBERTClassifier._get_predict_outputs\<close> (\<^verbatim>\<open>_uncertainty\<close>, \<^verbatim>\<open>_permutate\<close>)
  and their duplicates inside \<^verbatim>\<open>FastBERTClassifier._get_score_outputs\<close>.

  Conventions of the embedding:
  \<^item> numpy floats are idealised as \<open>real\<close> numbers (exact arithmetic, \<open>np.log\<close> as \<open>ln\<close>);
    the literal \<^verbatim>\<open>1e-20\<close> is \<open>1 / 10 ^ 20\<close>. The rounding of float64 is not
    represented: there \<^verbatim>\<open>1 - 1e-20\<close> is \<^verbatim>\<open>1.0\<close>, so at an input that the guard of
    \<^verbatim>\<open>_uncertainty\<close> replaces the code computes \<open>1e-20 ln 1e-20 / ln (1 / C)\<close>, without
    the second term of the numerator. Nothing below states the exact value of the
    score at such an input;
  \<^item> Python integers that are sizes, counters or positions are \<open>nat\<close>; classifier
    indices and \<^verbatim>\<open>max_loop\<close>, which can become negative, are \<open>int\<close>;
  \<^item> a numpy table is a list of rows; a read or a write outside the table is the
    error value \<open>IndexError\<close>, a row of the wrong width is \<open>ValueError\<close>, the final
    \<^verbatim>\<open>assert\<close> is \<open>AssertionError\<close>;
  \<^item> the three mutable locals \<^verbatim>\<open>probs\<close>, \<^verbatim>\<open>sources\<close> and \<^verbatim>\<open>i\<close> are passed as a triple;
  \<^item> \<^verbatim>\<open>1 / self.label_size\<close> is the true division of Python 3, and \<^verbatim>\<open>label_size\<close> is at
    least 2 wherever a value of the score matters: for \<^verbatim>\<open>label_size = 1\<close> the Python
    expression divides by the float zero, which the real-valued score does not
    represent (the constructor already rejects \<^verbatim>\<open>label_size = 0\<close>).
\<close>

subsection \<open>Configuration and errors\<close>

datatype error = IndexError | ValueError | AssertionError

text \<open>The attributes of \<^verbatim>\<open>self\<close> that the two helpers read.\<close>

record config =
  gpu_ids :: "nat list"
  batch_size :: nat
  label_size :: nat
  num_hidden_layers :: nat
  ignore_cls :: "int list"
  speed :: real

type_synonym tables = "real list list \<times> int list \<times> nat"

subsection \<open>The uncertainty score (inside \<open>_get_predict_outputs\<close>)\<close>

text \<open>
  \<^verbatim>\<open>
  def _uncertainty(prob):
      if prob < 1e-20 or 1 - prob < 1e-20:
          prob = 1e-20
      return (prob * np.log(prob) + (1 - prob) * np.log(1 - prob)) / \
          np.log(1 / self.label_size)
  \<close>
\<close>

text \<open>The literal \<^verbatim>\<open>1e-20\<close>.\<close>

definition tiny :: real where
  "tiny = 1 / 10 ^ 20"

definition uncertainty :: "nat \<Rightarrow> real \<Rightarrow> real" where
  "uncertainty labels prob =
     (let prob = (if prob < tiny \<or> 1 - prob < tiny then tiny else prob)
      in (prob * ln prob + (1 - prob) * ln (1 - prob)) / ln (1 / real labels))"

subsection \<open>The permutation step (inside \<open>_get_predict_outputs\<close>)\<close>

text \<open>
  \<^verbatim>\<open>
  n_device = max(len(self._gpu_ids), 1)
  d_batch_size = self.batch_size // n_device
  max_loop = self.bert_config.num_hidden_layers + 1 - len(self._ignore_cls)
  keep_cls = [cls_idx for cls_idx
              in list(range(self.bert_config.num_hidden_layers + 1))
              if cls_idx not in self._ignore_cls]
  \<close>
\<close>

definition n_device :: "config \<Rightarrow> nat" where
  "n_device cfg = max (length (gpu_ids cfg)) 1"

definition d_batch_size :: "config \<Rightarrow> nat" where
  "d_batch_size cfg = batch_size cfg div n_device cfg"

definition max_loop :: "config \<Rightarrow> int" where
  "max_loop cfg = int (num_hidden_layers cfg) + 1 - int (length (ignore_cls cfg))"

definition keep_cls :: "config \<Rightarrow> int list" where
  "keep_cls cfg =
     filter (\<lambda>cls_idx. cls_idx \<notin> set (ignore_cls cfg))
       (map int [0..<num_hidden_layers cfg + 1])"

text \<open>
  The row assignment \<^verbatim>\<open>probs[unfinished[k]] = batch_probs[i]\<close> of numpy: the table row
  has \<^verbatim>\<open>label_size\<close> entries; a value of that width is stored as it is, a value of
  width one is broadcast, any other width raises.
\<close>

definition assign_row :: "nat \<Rightarrow> real list \<Rightarrow> error + real list" where
  "assign_row width row =
     (if length row = width then Inr row
      else if length row = 1 then Inr (replicate width (hd row))
      else Inl ValueError)"

text \<open>
  The innermost loop, by recursion over the entries \<^verbatim>\<open>unfinished[k]\<close>:
  \<^verbatim>\<open>
  for k in range(len(unfinished)):
      if _uncertainty(batch_probs[i][0]) < self._speed or \
              loop == max_loop - 1:
          probs[unfinished[k]] = batch_probs[i]
          sources[unfinished[k]] = source
      else:
          next_unfinished.append(unfinished[k])
      i += 1
  \<close>
\<close>

fun inner_loop ::
  "config \<Rightarrow> real list list \<Rightarrow> nat \<Rightarrow> int \<Rightarrow> nat list \<Rightarrow> tables \<times> nat list
     \<Rightarrow> error + (tables \<times> nat list)" where
  "inner_loop cfg batch_probs loop source [] acc = Inr acc"
| "inner_loop cfg batch_probs loop source (u # unfinished) ((probs, sources, i), next_unfinished) =
     (if i < length batch_probs then
        (case batch_probs ! i of
           [] \<Rightarrow> Inl IndexError
         | p0 # _ \<Rightarrow>
             if uncertainty (label_size cfg) p0 < speed cfg \<or> int loop = max_loop cfg - 1 then
               (if u < length probs then
                  (case assign_row (label_size cfg) (batch_probs ! i) of
                     Inl e \<Rightarrow> Inl e
                   | Inr row \<Rightarrow>
                       inner_loop cfg batch_probs loop source unfinished
                         ((probs[u := row], sources[u := source], i + 1), next_unfinished))
                else Inl IndexError)
             else
               inner_loop cfg batch_probs loop source unfinished
                 ((probs, sources, i + 1), next_unfinished @ [u]))
      else Inl IndexError)"

text \<open>
  The loop over the classifiers that are kept, by recursion over \<^verbatim>\<open>range(max_loop)\<close>:
  \<^verbatim>\<open>
  for loop in range(max_loop):
      source = keep_cls[loop]
      next_unfinished = []
      ...
      unfinished = next_unfinished
  \<close>
\<close>

fun cascade ::
  "config \<Rightarrow> real list list \<Rightarrow> nat list \<Rightarrow> nat list \<Rightarrow> tables \<Rightarrow> error + (tables \<times> nat list)" where
  "cascade cfg batch_probs [] unfinished st = Inr (st, unfinished)"
| "cascade cfg batch_probs (loop # loops) unfinished st =
     (if loop < length (keep_cls cfg) then
        (case inner_loop cfg batch_probs loop (keep_cls cfg ! loop) unfinished (st, []) of
           Inl e \<Rightarrow> Inl e
         | Inr (st', next_unfinished) \<Rightarrow> cascade cfg batch_probs loops next_unfinished st')
      else Inl IndexError)"

text \<open>
  The loop over the devices, by recursion over \<^verbatim>\<open>range(n_device)\<close>:
  \<^verbatim>\<open>
  for d in range(n_device):
      unfinished = [k + i for k in range(d_batch_size)]
      for loop in range(max_loop): ...
  \<close>
\<close>

fun devices :: "config \<Rightarrow> real list list \<Rightarrow> nat list \<Rightarrow> tables \<Rightarrow> error + tables" where
  "devices cfg batch_probs [] st = Inr st"
| "devices cfg batch_probs (d # ds) (probs, sources, i) =
     (case cascade cfg batch_probs [0..<nat (max_loop cfg)]
             (map (\<lambda>k. k + i) [0..<d_batch_size cfg]) (probs, sources, i) of
        Inl e \<Rightarrow> Inl e
      | Inr (st', unfinished) \<Rightarrow> devices cfg batch_probs ds st')"

text \<open>
  \<^verbatim>\<open>
  def _permutate(batch_probs):
      ...
      probs = np.zeros((self.batch_size, self.label_size))
      sources = np.zeros((self.batch_size), dtype=np.int32)
      ...
      i = 0
      for d in range(n_device): ...
      assert i == len(batch_probs)
      return probs, sources
  \<close>
\<close>

definition permutate :: "config \<Rightarrow> real list list \<Rightarrow> error + (real list list \<times> int list)" where
  "permutate cfg batch_probs =
     (case devices cfg batch_probs [0..<n_device cfg]
             (replicate (batch_size cfg) (replicate (label_size cfg) 0),
              replicate (batch_size cfg) 0, 0) of
        Inl e \<Rightarrow> Inl e
      | Inr (probs, sources, i) \<Rightarrow>
          if i = length batch_probs then Inr (probs, sources) else Inl AssertionError)"

text \<open>
  The exit test of the inner loop at stream position \<open>j\<close>, as the lemmas below name it:
  the scalar given to \<^verbatim>\<open>_uncertainty\<close> is \<^verbatim>\<open>batch_probs[j][0]\<close>.
\<close>

abbreviation exits :: "config \<Rightarrow> real list list \<Rightarrow> nat \<Rightarrow> nat \<Rightarrow> bool" where
  "exits cfg batch_probs loop j \<equiv>
     uncertainty (label_size cfg) (hd (batch_probs ! j)) < speed cfg \<or> int loop = max_loop cfg - 1"

text \<open>The tables \<^verbatim>\<open>np.zeros(...)\<close> and the cursor \<^verbatim>\<open>i = 0\<close> that \<^verbatim>\<open>_permutate\<close> starts from.\<close>

abbreviation zeros :: "config \<Rightarrow> tables" where
  "zeros cfg \<equiv>
     (replicate (batch_size cfg) (replicate (label_size cfg) 0), replicate (batch_size cfg) 0, 0)"

subsection \<open>The duplicates inside \<open>_get_score_outputs\<close>\<close>

text \<open>
  \<^verbatim>\<open>_get_score_outputs\<close> defines its own \<^verbatim>\<open>_uncertainty\<close> and \<^verbatim>\<open>_permutate\<close>
  (lines 308 to 344 of the file); they are embedded separately, line by line, under
  the names below.
\<close>

definition uncertainty_score :: "nat \<Rightarrow> real \<Rightarrow> real" where
  "uncertainty_score labels prob =
     (let prob = (if prob < tiny \<or> 1 - prob < tiny then tiny else prob)
      in (prob * ln prob + (1 - prob) * ln (1 - prob)) / ln (1 / real labels))"

definition n_device_score :: "config \<Rightarrow> nat" where
  "n_device_score cfg = max (length (gpu_ids cfg)) 1"

definition d_batch_size_score :: "config \<Rightarrow> nat" where
  "d_batch_size_score cfg = batch_size cfg div n_device_score cfg"

definition max_loop_score :: "config \<Rightarrow> int" where
  "max_loop_score cfg = int (num_hidden_layers cfg) + 1 - int (length (ignore_cls cfg))"

definition keep_cls_score :: "config \<Rightarrow> int list" where
  "keep_cls_score cfg =
     filter (\<lambda>cls_idx. cls_idx \<notin> set (ignore_cls cfg))
       (map int [0..<num_hidden_layers cfg + 1])"

fun inner_loop_score ::
  "config \<Rightarrow> real list list \<Rightarrow> nat \<Rightarrow> int \<Rightarrow> nat list \<Rightarrow> tables \<times> nat list
     \<Rightarrow> error + (tables \<times> nat list)" where
  "inner_loop_score cfg batch_probs loop source [] acc = Inr acc"
| "inner_loop_score cfg batch_probs loop source (u # unfinished)
       ((probs, sources, i), next_unfinished) =
     (if i < length batch_probs then
        (case batch_probs ! i of
           [] \<Rightarrow> Inl IndexError
         | p0 # _ \<Rightarrow>
             if uncertainty_score (label_size cfg) p0 < speed cfg
                  \<or> int loop = max_loop_score cfg - 1 then
               (if u < length probs then
                  (case assign_row (label_size cfg) (batch_probs ! i) of
                     Inl e \<Rightarrow> Inl e
                   | Inr row \<Rightarrow>
                       inner_loop_score cfg batch_probs loop source unfinished
                         ((probs[u := row], sources[u := source], i + 1), next_unfinished))
                else Inl IndexError)
             else
               inner_loop_score cfg batch_probs loop source unfinished
                 ((probs, sources, i + 1), next_unfinished @ [u]))
      else Inl IndexError)"

fun cascade_score ::
  "config \<Rightarrow> real list list \<Rightarrow> nat list \<Rightarrow> nat list \<Rightarrow> tables \<Rightarrow> error + (tables \<times> nat list)" where
  "cascade_score cfg batch_probs [] unfinished st = Inr (st, unfinished)"
| "cascade_score cfg batch_probs (loop # loops) unfinished st =
     (if loop < length (keep_cls_score cfg) then
        (case inner_loop_score cfg batch_probs loop (keep_cls_score cfg ! loop) unfinished (st, []) of
           Inl e \<Rightarrow> Inl e
         | Inr (st', next_unfinished) \<Rightarrow> cascade_score cfg batch_probs loops next_unfinished st')
      else Inl IndexError)"

fun devices_score :: "config \<Rightarrow> real list list \<Rightarrow> nat list \<Rightarrow> tables \<Rightarrow> error + tables" where
  "devices_score cfg batch_probs [] st = Inr st"
| "devices_score cfg batch_probs (d # ds) (probs, sources, i) =
     (case cascade_score cfg batch_probs [0..<nat (max_loop_score cfg)]
             (map (\<lambda>k. k + i) [0..<d_batch_size_score cfg]) (probs, sources, i) of
        Inl e \<Rightarrow> Inl e
      | Inr (st', unfinished) \<Rightarrow> devices_score cfg batch_probs ds st')"

definition permutate_score ::
  "config \<Rightarrow> real list list \<Rightarrow> error + (real list list \<times> int list)" where
  "permutate_score cfg batch_probs =
     (case devices_score cfg batch_probs [0..<n_device_score cfg]
             (replicate (batch_size cfg) (replicate (label_size cfg) 0),
              replicate (batch_size cfg) 0, 0) of
        Inl e \<Rightarrow> Inl e
      | Inr (probs, sources, i) \<Rightarrow>
          if i = length batch_probs then Inr (probs, sources) else Inl AssertionError)"

subsection \<open>Concrete calls\<close>

text \<open>
  One example on the CPU (\<^verbatim>\<open>_gpu_ids\<close> empty, so one device), two labels, one hidden
  layer (classifiers 0 and 1), nothing ignored, the default \<^verbatim>\<open>speed = 0.1\<close>.
\<close>

definition cfg_cpu :: config where
  "cfg_cpu = \<lparr>gpu_ids = [], batch_size = 1, label_size = 2, num_hidden_layers = 1,
     ignore_cls = [], speed = 1 / 10\<rparr>"

text \<open>The same model on two GPUs, one example for each.\<close>

definition cfg_two_gpus :: config where
  "cfg_two_gpus = \<lparr>gpu_ids = [0, 1], batch_size = 2, label_size = 2, num_hidden_layers = 1,
     ignore_cls = [], speed = 1 / 10\<rparr>"

text \<open>The same model with both classifiers ignored.\<close>

definition cfg_all_ignored :: config where
  "cfg_all_ignored = \<lparr>gpu_ids = [], batch_size = 1, label_size = 2, num_hidden_layers = 1,
     ignore_cls = [0, 1], speed = 1 / 10\<rparr>"

text \<open>Four labels and \<^verbatim>\<open>speed = 0.5\<close>.\<close>

definition cfg_four_labels :: config where
  "cfg_four_labels = \<lparr>gpu_ids = [], batch_size = 1, label_size = 4, num_hidden_layers = 1,
     ignore_cls = [], speed = 1 / 2\<rparr>"

text \<open>A probability vector that is undecided between two labels.\<close>

definition undecided :: "real list" where
  "undecided = [1 / 2, 1 / 2]"

text \<open>A probability vector over four labels whose second label leads.\<close>

definition second_label_leads :: "real list" where
  "second_label_leads = [1 / 4, 1 / 2, 1 / 4, 0]"

text \<open>
  Two outcomes of a loop route the examples alike: the same error, or the same
  sources, cursor and unfinished list, with tables of the same height.
\<close>

abbreviation same_routing ::
  "error + (tables \<times> nat list) \<Rightarrow> error + (tables \<times> nat list) \<Rightarrow> bool" where
  "same_routing \<equiv>
     rel_sum (=) (\<lambda>((p, s, i), n) ((p2, s2, i2), n2). length p2 = length p \<and> s2 = s \<and> i2 = i \<and> n2 = n)"

section \<open>The uncertainty score\<close>


lemma tiny_less_half: "tiny < 1 / 2"
  by (simp add: tiny_def)


subsection \<open>Shape of the score\<close>



lemma uncertainty_half: "uncertainty 2 (1 / 2) = 1"
proof -
  have "\<not> (1 / 2 < tiny)" "\<not> (1 - 1 / 2 < tiny)"
    using tiny_less_half by simp_all
  then have "uncertainty 2 (1 / 2) = (1 / 2 * ln (1 / 2) + (1 - 1 / 2) * ln (1 - 1 / 2)) / ln (1 / 2)"
    unfolding uncertainty_def Let_def by simp
  also have "\<dots> = 1"
    by simp
  finally show ?thesis .
qed

















section \<open>The cascade loops\<close>

subsection \<open>One pass over the unfinished examples\<close>

lemma inner_loop_step:
  assumes "inner_loop cfg bp loop source (u # us) ((probs, sources, i), nxt) = Inr r"
  shows "i < length bp \<and> bp ! i \<noteq> [] \<and>
     (if exits cfg bp loop i
      then u < length probs \<and>
        (\<exists>row. assign_row (label_size cfg) (bp ! i) = Inr row \<and>
           inner_loop cfg bp loop source us
             ((probs[u := row], sources[u := source], Suc i), nxt) = Inr r)
      else inner_loop cfg bp loop source us ((probs, sources, Suc i), nxt @ [u]) = Inr r)"
  using assms by (auto split: if_splits list.splits sum.splits)

lemma zip_cursor_Cons:
  "zip (u # us) [i..<i + length (u # us)] = (u, i) # zip us [Suc i..<Suc i + length us]"
  by (simp add: upt_conv_Cons del: upt_Suc)

lemma inner_loop_cursor:
  "inner_loop cfg bp loop source us ((probs, sources, i), nxt) = Inr ((probs', sources', i'), nxt')
     \<Longrightarrow> i' = i + length us \<and> (i \<le> length bp \<longrightarrow> i' \<le> length bp)
         \<and> length probs' = length probs \<and> length sources' = length sources"
proof (induction us arbitrary: probs sources i nxt)
  case Nil
  then show ?case by simp
next
  case (Cons u us)
  note step = inner_loop_step [OF Cons.prems]
  show ?case
  proof (cases "exits cfg bp loop i")
    case True
    with step obtain row where
      "inner_loop cfg bp loop source us ((probs[u := row], sources[u := source], Suc i), nxt)
         = Inr ((probs', sources', i'), nxt')"
      by auto
    from Cons.IH [OF this] step show ?thesis by simp
  next
    case False
    with step have
      "inner_loop cfg bp loop source us ((probs, sources, Suc i), nxt @ [u])
         = Inr ((probs', sources', i'), nxt')"
      by auto
    from Cons.IH [OF this] step show ?thesis by simp
  qed
qed

lemma inner_loop_next:
  "inner_loop cfg bp loop source us ((probs, sources, i), nxt) = Inr ((probs', sources', i'), nxt')
     \<Longrightarrow> nxt' = nxt @ map fst (filter (\<lambda>(u, j). \<not> exits cfg bp loop j) (zip us [i..<i + length us]))"
proof (induction us arbitrary: probs sources i nxt)
  case Nil
  then show ?case by simp
next
  case (Cons u us)
  note step = inner_loop_step [OF Cons.prems]
  show ?case
  proof (cases "exits cfg bp loop i")
    case True
    with step obtain row where
      "inner_loop cfg bp loop source us ((probs[u := row], sources[u := source], Suc i), nxt)
         = Inr ((probs', sources', i'), nxt')"
      by auto
    from Cons.IH [OF this] True show ?thesis
      by (simp only: zip_cursor_Cons) (simp del: upt_Suc)
  next
    case False
    with step have
      "inner_loop cfg bp loop source us ((probs, sources, Suc i), nxt @ [u])
         = Inr ((probs', sources', i'), nxt')"
      by auto
    from Cons.IH [OF this] False show ?thesis
      by (simp only: zip_cursor_Cons) (simp del: upt_Suc)
  qed
qed


lemma inner_loop_carried_length:
  assumes "inner_loop cfg bp loop source us ((probs, sources, i), []) = Inr ((probs', sources', i'), nxt')"
  shows "length nxt' \<le> length us"
proof -
  let ?z = "zip us [i..<i + length us]"
  have "length nxt' = length (filter (\<lambda>(v, j). \<not> exits cfg bp loop j) ?z)"
    by (simp add: inner_loop_next [OF assms] del: upt_Suc)
  also have "\<dots> \<le> length ?z"
    by (rule length_filter_le)
  also have "\<dots> = length us"
    by simp
  finally show ?thesis .
qed

lemma inner_loop_carried_set:
  assumes "inner_loop cfg bp loop source us ((probs, sources, i), []) = Inr ((probs', sources', i'), nxt')"
  shows "set nxt' = {us ! k | k. k < length us \<and> \<not> exits cfg bp loop (i + k)}"
  unfolding inner_loop_next [OF assms]
  by (auto simp: set_zip image_iff simp del: upt_Suc) force+


lemma inner_loop_forced:
  assumes "inner_loop cfg bp loop source us ((probs, sources, i), []) = Inr ((probs', sources', i'), nxt')"
    and "int loop = max_loop cfg - 1"
  shows "nxt' = []"
  unfolding inner_loop_next [OF assms(1)] using assms(2) by (simp del: upt_Suc)

subsection \<open>All passes of one device\<close>

lemma cascade_step:
  assumes "cascade cfg bp (loop # ls) us st = Inr r"
  shows "loop < length (keep_cls cfg) \<and>
     (\<exists>st1 nxt. inner_loop cfg bp loop (keep_cls cfg ! loop) us (st, []) = Inr (st1, nxt) \<and>
        cascade cfg bp ls nxt st1 = Inr r)"
  using assms by (auto split: if_splits sum.splits)

lemma cascade_cursor:
  "cascade cfg bp ls us (probs, sources, i) = Inr ((probs', sources', i'), rest) \<Longrightarrow>
     (ls \<noteq> [] \<longrightarrow> i + length us \<le> i') \<and> i' \<le> i + length us * length ls \<and> i \<le> i' \<and>
     (i \<le> length bp \<longrightarrow> i' \<le> length bp) \<and>
     length probs' = length probs \<and> length sources' = length sources"
proof (induction ls arbitrary: us probs sources i)
  case Nil
  then show ?case by simp
next
  case (Cons loop ls)
  from cascade_step [OF Cons.prems] obtain p1 s1 i1 nxt where
    inner: "inner_loop cfg bp loop (keep_cls cfg ! loop) us ((probs, sources, i), [])
              = Inr ((p1, s1, i1), nxt)"
    and rest: "cascade cfg bp ls nxt (p1, s1, i1) = Inr ((probs', sources', i'), rest)"
    by (metis prod_cases3)
  note c = inner_loop_cursor [OF inner] and l = inner_loop_carried_length [OF inner]
    and ih = Cons.IH [OF rest]
  have "i' \<le> i1 + length nxt * length ls"
    using ih by simp
  also have "\<dots> \<le> i1 + length us * length ls"
    using l by simp
  also have "\<dots> = i + length us * length (loop # ls)"
    using c by simp
  finally have upper: "i' \<le> i + length us * length (loop # ls)" .
  from c ih have "i + length us \<le> i'" "i \<le> length bp \<longrightarrow> i' \<le> length bp"
    "length probs' = length probs" "length sources' = length sources"
    by auto
  with upper show ?case by simp
qed



subsection \<open>Evaluating the concrete calls\<close>

lemma cfg_cpu_locals:
  "n_device cfg_cpu = 1" "d_batch_size cfg_cpu = 1" "max_loop cfg_cpu = 2"
  "keep_cls cfg_cpu = [0, 1]" "batch_size cfg_cpu = 1"
  "label_size cfg_cpu = 2" "speed cfg_cpu = 1 / 10"
  by (simp_all add: n_device_def d_batch_size_def max_loop_def keep_cls_def cfg_cpu_def
      eval_nat_numeral)

lemma cfg_two_gpus_locals:
  "n_device cfg_two_gpus = 2" "d_batch_size cfg_two_gpus = 1" "max_loop cfg_two_gpus = 2"
  "keep_cls cfg_two_gpus = [0, 1]" "batch_size cfg_two_gpus = 2"
  "label_size cfg_two_gpus = 2" "speed cfg_two_gpus = 1 / 10"
  by (simp_all add: n_device_def d_batch_size_def max_loop_def keep_cls_def cfg_two_gpus_def
      eval_nat_numeral)

lemma cfg_all_ignored_locals:
  "n_device cfg_all_ignored = 1" "d_batch_size cfg_all_ignored = 1" "max_loop cfg_all_ignored = 0"
  "keep_cls cfg_all_ignored = []" "batch_size cfg_all_ignored = 1"
  "label_size cfg_all_ignored = 2" "speed cfg_all_ignored = 1 / 10"
  by (simp_all add: n_device_def d_batch_size_def max_loop_def keep_cls_def cfg_all_ignored_def
      eval_nat_numeral)

lemma replicate_two: "replicate 2 x = [x, x]"
  by (simp add: numeral_2_eq_2)

lemmas call_simps = assign_row_def undecided_def uncertainty_half upt_rec replicate_two

subsection \<open>All devices, and the final assertion\<close>

lemma devices_step:
  assumes "devices cfg bp (d # ds) (probs, sources, i) = Inr r"
  shows "\<exists>st1 rest. cascade cfg bp [0..<nat (max_loop cfg)]
            (map (\<lambda>k. k + i) [0..<d_batch_size cfg]) (probs, sources, i) = Inr (st1, rest)
          \<and> devices cfg bp ds st1 = Inr r"
  using assms by (auto split: sum.splits)

lemma devices_cursor:
  "devices cfg bp ds (probs, sources, i) = Inr (probs', sources', i') \<Longrightarrow>
     i \<le> i' \<and> (i \<le> length bp \<longrightarrow> i' \<le> length bp) \<and>
     length probs' = length probs \<and> length sources' = length sources"
proof (induction ds arbitrary: probs sources i)
  case Nil
  then show ?case by simp
next
  case (Cons d ds)
  from devices_step [OF Cons.prems] obtain p1 s1 i1 rest where
    c: "cascade cfg bp [0..<nat (max_loop cfg)] (map (\<lambda>k. k + i) [0..<d_batch_size cfg])
          (probs, sources, i) = Inr ((p1, s1, i1), rest)"
    and r: "devices cfg bp ds (p1, s1, i1) = Inr (probs', sources', i')"
    by (metis prod_cases3)
  from cascade_cursor [OF c] Cons.IH [OF r] show ?case
    by auto
qed

lemma devices_no_loops:
  "max_loop cfg \<le> 0 \<Longrightarrow> devices cfg bp ds st = Inr st"
proof (induction ds)
  case Nil
  then show ?case by simp
next
  case (Cons d ds)
  obtain probs sources i where st: "st = (probs, sources, i)"
    by (cases st) auto
  from Cons show ?case
    by (simp add: st)
qed

lemma max_loop_all_ignored:
  assumes "{0..int (num_hidden_layers cfg)} \<subseteq> set (ignore_cls cfg)"
  shows "max_loop cfg \<le> 0"
proof -
  have "card {0..int (num_hidden_layers cfg)} \<le> card (set (ignore_cls cfg))"
    using assms by (intro card_mono) simp_all
  also have "\<dots> \<le> length (ignore_cls cfg)"
    by (rule card_length)
  finally show ?thesis
    by (simp add: max_loop_def)
qed

text \<open>
  C3. When \<^verbatim>\<open>_permutate\<close> returns its tables, the cursor \<open>i\<close> (the number of vectors
  taken from \<^verbatim>\<open>batch_probs\<close>) equals \<^verbatim>\<open>len(batch_probs)\<close>; when the loops end with a
  cursor that differs from the length, vectors are left over (\<open>i < len(batch_probs)\<close>)
  and the call raises the assertion error instead of returning.
\<close>

theorem consumption_conservation:
  "(\<forall>probs sources. permutate cfg bp = Inr (probs, sources) \<longrightarrow>
       devices cfg bp [0..<n_device cfg] (zeros cfg) = Inr (probs, sources, length bp))
   \<and> (\<forall>probs sources i.
         devices cfg bp [0..<n_device cfg] (zeros cfg) = Inr (probs, sources, i) \<and> i \<noteq> length bp \<longrightarrow>
           i < length bp \<and> permutate cfg bp = Inl AssertionError)"
proof (intro conjI allI impI)
  fix probs sources
  assume "permutate cfg bp = Inr (probs, sources)"
  then show "devices cfg bp [0..<n_device cfg] (zeros cfg) = Inr (probs, sources, length bp)"
    by (auto simp: permutate_def split: sum.splits prod.splits if_splits)
next
  fix probs sources i
  assume a: "devices cfg bp [0..<n_device cfg] (zeros cfg) = Inr (probs, sources, i) \<and> i \<noteq> length bp"
  then have "i \<le> length bp"
    using devices_cursor [of cfg bp "[0..<n_device cfg]"
        "replicate (batch_size cfg) (replicate (label_size cfg) 0)"
        "replicate (batch_size cfg) 0" 0 probs sources i]
    by simp
  with a show "i < length bp" by simp
  from a show "permutate cfg bp = Inl AssertionError"
    by (simp add: permutate_def)
qed

theorem consumption_conservation_witness:
  "permutate cfg_cpu [undecided, undecided] = Inr ([undecided], [1])
   \<and> devices cfg_cpu [undecided, undecided] [0..<n_device cfg_cpu] (zeros cfg_cpu)
       = Inr ([undecided], [1], length [undecided, undecided])
   \<and> devices cfg_cpu [undecided, undecided, undecided] [0..<n_device cfg_cpu] (zeros cfg_cpu)
       = Inr ([undecided], [1], 2)
   \<and> 2 \<noteq> length [undecided, undecided, undecided]
   \<and> permutate cfg_cpu [undecided, undecided, undecided] = Inl AssertionError"
proof -
  have p: "permutate cfg_cpu [undecided, undecided] = Inr ([undecided], [1])"
    by (simp add: permutate_def cfg_cpu_locals call_simps)
  have d: "devices cfg_cpu [undecided, undecided, undecided] [0..<n_device cfg_cpu] (zeros cfg_cpu)
       = Inr ([undecided], [1], 2)"
    by (simp add: cfg_cpu_locals call_simps)
  from p consumption_conservation [of cfg_cpu "[undecided, undecided]"]
  have "devices cfg_cpu [undecided, undecided] [0..<n_device cfg_cpu] (zeros cfg_cpu)
       = Inr ([undecided], [1], length [undecided, undecided])"
    by blast
  moreover from d consumption_conservation [of cfg_cpu "[undecided, undecided, undecided]"]
  have "permutate cfg_cpu [undecided, undecided, undecided] = Inl AssertionError"
    by (metis length_Cons list.size(3) n_not_Suc_n numeral_2_eq_2)
  ultimately show ?thesis
    using p d by simp
qed

text \<open>
  C9, as the code has it. With every classifier \<open>0..L\<close> in the ignore list,
  \<^verbatim>\<open>max_loop \<le> 0\<close> and no check rejects the configuration: \<^verbatim>\<open>_permutate\<close> runs no
  cascade iteration, returns the all-zero tables for an empty stream and raises the
  assertion error for any other stream.
\<close>

theorem all_heads_ignored:
  assumes "{0..int (num_hidden_layers cfg)} \<subseteq> set (ignore_cls cfg)"
  shows "max_loop cfg \<le> 0 \<and>
    permutate cfg bp =
      (if bp = []
       then Inr (replicate (batch_size cfg) (replicate (label_size cfg) 0),
                 replicate (batch_size cfg) 0)
       else Inl AssertionError)"
  using max_loop_all_ignored [OF assms]
  by (auto simp: permutate_def devices_no_loops)

theorem all_heads_ignored_witness:
  "{0..int (num_hidden_layers cfg_all_ignored)} \<subseteq> set (ignore_cls cfg_all_ignored)
   \<and> max_loop cfg_all_ignored \<le> 0
   \<and> permutate cfg_all_ignored [undecided] = Inl AssertionError"
proof -
  have h: "{0..int (num_hidden_layers cfg_all_ignored)} \<subseteq> set (ignore_cls cfg_all_ignored)"
    by (auto simp: cfg_all_ignored_def)
  from all_heads_ignored [OF h, of "[undecided]"] h show ?thesis
    by simp
qed

text \<open>
  The claim as worded fails: both classifiers of \<open>cfg_all_ignored\<close> are ignored and the
  call on the empty stream returns tables instead of failing.
\<close>

theorem all_heads_ignored_counterexample:
  "{0..int (num_hidden_layers cfg_all_ignored)} \<subseteq> set (ignore_cls cfg_all_ignored)
   \<and> permutate cfg_all_ignored [] = Inr ([[0, 0]], [0])"
proof -
  have "{0..int (num_hidden_layers cfg_all_ignored)} \<subseteq> set (ignore_cls cfg_all_ignored)"
    by (auto simp: cfg_all_ignored_def)
  moreover have "permutate cfg_all_ignored [] = Inr ([[0, 0]], [0])"
    by (simp add: permutate_def cfg_all_ignored_locals call_simps)
  ultimately show ?thesis by simp
qed

subsection \<open>Decisions of one pass, and the range of the loop\<close>


lemma inner_loop_all_exit:
  assumes run: "inner_loop cfg bp loop source us ((probs, sources, i), []) = Inr ((probs', sources', i'), nxt)"
  shows "nxt = [] \<longleftrightarrow> (\<forall>k<length us. exits cfg bp loop (i + k))"
proof -
  have "nxt = [] \<longleftrightarrow> set nxt = {}" by simp
  also have "\<dots> \<longleftrightarrow> (\<forall>k<length us. exits cfg bp loop (i + k))"
    unfolding inner_loop_carried_set [OF run] by blast
  finally show ?thesis .
qed

lemma range_max_loop:
  "0 < max_loop cfg \<Longrightarrow> [0..<nat (max_loop cfg)] \<noteq> [] \<and>
     int (last [0..<nat (max_loop cfg)]) = max_loop cfg - 1 \<and>
     [0..<nat (max_loop cfg)] = 0 # [1..<nat (max_loop cfg)]"
proof -
  assume pos: "0 < max_loop cfg"
  then obtain n where n: "nat (max_loop cfg) = Suc n"
    by (cases "nat (max_loop cfg)") auto
  have "[0..<Suc n] = 0 # [1..<Suc n]"
    by (subst upt_rec) simp
  moreover have "last [0..<Suc n] = n"
    by simp
  moreover have "int n = max_loop cfg - 1"
    using n pos by linarith
  ultimately show ?thesis
    unfolding n by simp
qed

subsection \<open>Resolution of the examples and consumption of the stream\<close>



text \<open>
  C8, as the code has it. One vector is consumed for every example and every iteration
  in which the example is still unfinished. For a device with \<open>N\<close> examples the number
  of vectors consumed, \<open>i' - i\<close>, is therefore at least \<open>N\<close> and at most
  \<open>N * max_loop\<close>, and it equals \<open>N\<close> exactly when every example leaves at the first
  iteration.
\<close>

theorem shard_consumption:
  assumes run: "cascade cfg bp [0..<nat (max_loop cfg)] us (probs, sources, i)
      = Inr ((probs', sources', i'), rest)"
    and pos: "0 < max_loop cfg"
  shows "i + length us \<le> i' \<and> i' \<le> i + length us * nat (max_loop cfg)
    \<and> (i' = i + length us \<longleftrightarrow> (\<forall>k<length us. exits cfg bp 0 (i + k)))"
proof -
  from range_max_loop [OF pos]
  have ne: "[0..<nat (max_loop cfg)] \<noteq> []"
    and r: "[0..<nat (max_loop cfg)] = 0 # [1..<nat (max_loop cfg)]"
    by blast+
  have "length [0..<nat (max_loop cfg)] = nat (max_loop cfg)"
    by simp
  with cascade_cursor [OF run] ne have bounds:
    "i + length us \<le> i'" "i' \<le> i + length us * nat (max_loop cfg)"
    by (simp_all del: upt_eq_Nil_conv)
  let ?ls = "[1..<nat (max_loop cfg)]"
  from run have "cascade cfg bp (0 # ?ls) us (probs, sources, i) = Inr ((probs', sources', i'), rest)"
    by (simp only: r [symmetric])
  from cascade_step [OF this] obtain p1 s1 i1 nxt where
    inner: "inner_loop cfg bp 0 (keep_cls cfg ! 0) us ((probs, sources, i), [])
              = Inr ((p1, s1, i1), nxt)"
    and later: "cascade cfg bp ?ls nxt (p1, s1, i1) = Inr ((probs', sources', i'), rest)"
    by (metis prod_cases3)
  have i1: "i1 = i + length us"
    using inner_loop_cursor [OF inner] by simp
  note c = cascade_cursor [OF later]
  have "i' = i + length us \<longleftrightarrow> nxt = []"
  proof
    assume "nxt = []"
    with c i1 show "i' = i + length us" by simp
  next
    assume e: "i' = i + length us"
    show "nxt = []"
    proof (cases "?ls = []")
      case True
      then have "int 0 = max_loop cfg - 1"
        using pos by simp
      with inner show ?thesis
        by (rule inner_loop_forced)
    next
      case False
      with c i1 e show ?thesis by simp
    qed
  qed
  with inner_loop_all_exit [OF inner] bounds show ?thesis
    by simp
qed

theorem shard_consumption_witness:
  "cascade cfg_cpu [undecided, undecided] [0..<nat (max_loop cfg_cpu)] [0] ([[0, 0]], [0], 0)
      = Inr (([undecided], [1], 2), [])
   \<and> 0 < max_loop cfg_cpu \<and> 0 + length [0 :: nat] \<le> 2
   \<and> 2 \<le> 0 + length [0 :: nat] * nat (max_loop cfg_cpu)
   \<and> \<not> (\<forall>k<length [0 :: nat]. exits cfg_cpu [undecided, undecided] 0 (0 + k))"
proof -
  have run: "cascade cfg_cpu [undecided, undecided] [0..<nat (max_loop cfg_cpu)] [0] ([[0, 0]], [0], 0)
      = Inr (([undecided], [1], 2), [])"
    by (simp add: cfg_cpu_locals call_simps)
  have pos: "0 < max_loop cfg_cpu"
    by (simp add: cfg_cpu_locals)
  from shard_consumption [OF run pos] run pos show ?thesis
    by simp
qed

text \<open>
  The claim as worded fails: the only device of \<open>cfg_cpu\<close> has one example, which stays
  undecided at classifier 0 and is resolved at classifier 1; the call succeeds and
  two vectors are consumed for that one example.
\<close>

theorem shard_consumption_counterexample:
  "n_device cfg_cpu = 1 \<and> d_batch_size cfg_cpu = 1
   \<and> devices cfg_cpu [undecided, undecided] [0..<n_device cfg_cpu] ([[0, 0]], [0], 0)
       = Inr ([undecided], [1], 2)
   \<and> permutate cfg_cpu [undecided, undecided] = Inr ([undecided], [1])"
  by (simp add: permutate_def cfg_cpu_locals call_simps)

text \<open>
  C1 fails on the code as soon as a second device follows a device that carried an
  example over. The positions of device \<open>d\<close> are \<^verbatim>\<open>[k + i for k in range(d_batch_size)]\<close>
  with \<open>i\<close> the cursor in the stream, not \<open>d * d_batch_size\<close>: with two devices of one
  example each and both examples resolved at the second classifier, the second
  device writes to row 2 of tables that have two rows, and the call raises instead
  of filling position 1.
\<close>

theorem two_devices_index_error:
  "permutate cfg_two_gpus [undecided, undecided, undecided, undecided] = Inl IndexError"
  by (simp add: permutate_def cfg_two_gpus_locals call_simps)

section \<open>The ignore list\<close>

lemma all_heads: "set (map int [0..<L + 1]) = {0..int L}"
proof -
  have "{0..<L + 1} = {0..L}"
    by auto
  then have "set (map int [0..<L + 1]) = int ` {0..L}"
    by (simp only: set_map set_upt)
  then show ?thesis
    by (simp only: image_int_atLeastAtMost) simp
qed

lemma all_heads_sorted: "sorted (map int [0..<n])" "distinct (map int [0..<n])"
  by (simp_all add: sorted_map distinct_map sorted_wrt_mono_rel [OF _ sorted_upt])

lemma keep_cls_set:
  "set (keep_cls cfg) = {0..int (num_hidden_layers cfg)} - set (ignore_cls cfg)"
  unfolding keep_cls_def set_filter all_heads by blast

lemma keep_cls_sorted: "sorted (keep_cls cfg)" "distinct (keep_cls cfg)"
  unfolding keep_cls_def by (simp_all add: all_heads_sorted sorted_wrt_filter del: upt_Suc)

lemma keep_cls_length:
  assumes "distinct (ignore_cls cfg)"
    and "set (ignore_cls cfg) \<subseteq> {0..int (num_hidden_layers cfg)}"
  shows "int (length (keep_cls cfg)) = max_loop cfg"
proof -
  let ?L = "num_hidden_layers cfg"
  have "length (keep_cls cfg) = card ({0..int ?L} - set (ignore_cls cfg))"
    using distinct_card [OF keep_cls_sorted(2), of cfg] by (simp only: keep_cls_set)
  also have "\<dots> = card {0..int ?L} - card (set (ignore_cls cfg))"
    using assms(2) by (intro card_Diff_subset) simp_all
  also have "\<dots> = (?L + 1) - length (ignore_cls cfg)"
    using distinct_card [OF assms(1)] by simp
  finally have l: "length (keep_cls cfg) = (?L + 1) - length (ignore_cls cfg)" .
  have "card (set (ignore_cls cfg)) \<le> card {0..int ?L}"
    using assms(2) by (intro card_mono) simp_all
  then have "length (ignore_cls cfg) \<le> ?L + 1"
    using distinct_card [OF assms(1)] by simp
  with l show ?thesis
    by (simp add: max_loop_def)
qed

text \<open>
  C7. For an ignore list without repetitions whose entries are classifiers \<open>0..L\<close>:
  \<^verbatim>\<open>max_loop\<close> is \<open>(L + 1) - |ignore set|\<close>; \<^verbatim>\<open>keep_cls\<close> is the sorted list of the
  classifiers \<open>0..L\<close> that are not ignored, and the \<^verbatim>\<open>max_loop\<close> iterations visit all of
  it; a strictly larger ignore set gives a strictly smaller \<^verbatim>\<open>max_loop\<close> and a
  \<^verbatim>\<open>keep_cls\<close> that is the old one with the newly ignored classifiers removed, the
  others in the same order.
\<close>

theorem ignore_set_effect:
  assumes d: "distinct (ignore_cls cfg)"
    and sub: "set (ignore_cls cfg) \<subseteq> {0..int (num_hidden_layers cfg)}"
  shows "max_loop cfg = int (num_hidden_layers cfg) + 1 - int (card (set (ignore_cls cfg)))
    \<and> keep_cls cfg
        = sorted_list_of_set ({0..int (num_hidden_layers cfg)} - set (ignore_cls cfg))
    \<and> take (nat (max_loop cfg)) (keep_cls cfg) = keep_cls cfg
    \<and> (\<forall>more. distinct more \<and> set more \<subseteq> {0..int (num_hidden_layers cfg)}
          \<and> set (ignore_cls cfg) \<subset> set more \<longrightarrow>
        max_loop (cfg\<lparr>ignore_cls := more\<rparr>) < max_loop cfg
        \<and> keep_cls (cfg\<lparr>ignore_cls := more\<rparr>)
            = filter (\<lambda>cls_idx. cls_idx \<notin> set more) (keep_cls cfg))"
proof (intro conjI allI impI)
  let ?H = "{0..int (num_hidden_layers cfg)}"
  show "max_loop cfg = int (num_hidden_layers cfg) + 1 - int (card (set (ignore_cls cfg)))"
    using distinct_card [OF d] by (simp add: max_loop_def)
  have "finite (?H - set (ignore_cls cfg))" by simp
  then show "keep_cls cfg = sorted_list_of_set (?H - set (ignore_cls cfg))"
    by (intro sorted_distinct_set_unique) (simp_all add: keep_cls_sorted keep_cls_set)
  show "take (nat (max_loop cfg)) (keep_cls cfg) = keep_cls cfg"
    using keep_cls_length [OF d sub] by simp
next
  fix more
  assume m: "distinct more \<and> set more \<subseteq> {0..int (num_hidden_layers cfg)}
    \<and> set (ignore_cls cfg) \<subset> set more"
  then have "card (set (ignore_cls cfg)) < card (set more)"
    by (intro psubset_card_mono) simp_all
  then have "length (ignore_cls cfg) < length more"
    using m distinct_card [OF d] distinct_card [of more] by simp
  then show "max_loop (cfg\<lparr>ignore_cls := more\<rparr>) < max_loop cfg"
    by (simp add: max_loop_def)
  have "filter (\<lambda>c. c \<notin> set more) (filter (\<lambda>c. c \<notin> set (ignore_cls cfg)) xs)
      = filter (\<lambda>c. c \<notin> set more) xs" for xs :: "int list"
    using m by (induction xs) auto
  then show "keep_cls (cfg\<lparr>ignore_cls := more\<rparr>)
      = filter (\<lambda>cls_idx. cls_idx \<notin> set more) (keep_cls cfg)"
    by (simp add: keep_cls_def del: upt_Suc)
qed

theorem ignore_set_effect_witness:
  "distinct (ignore_cls cfg_cpu) \<and> set (ignore_cls cfg_cpu) \<subseteq> {0..int (num_hidden_layers cfg_cpu)}
   \<and> distinct [0 :: int] \<and> set [0] \<subseteq> {0..int (num_hidden_layers cfg_cpu)}
   \<and> set (ignore_cls cfg_cpu) \<subset> set [0]
   \<and> max_loop (cfg_cpu\<lparr>ignore_cls := [0]\<rparr>) < max_loop cfg_cpu
   \<and> keep_cls (cfg_cpu\<lparr>ignore_cls := [0]\<rparr>) = filter (\<lambda>cls_idx. cls_idx \<notin> set [0]) (keep_cls cfg_cpu)
   \<and> max_loop cfg_cpu = 2"
proof -
  have h: "distinct (ignore_cls cfg_cpu)"
    "set (ignore_cls cfg_cpu) \<subseteq> {0..int (num_hidden_layers cfg_cpu)}"
    by (simp_all add: cfg_cpu_def)
  have m: "distinct [0 :: int] \<and> set [0] \<subseteq> {0..int (num_hidden_layers cfg_cpu)}
      \<and> set (ignore_cls cfg_cpu) \<subset> set [0]"
    by (auto simp: cfg_cpu_def)
  from ignore_set_effect [OF h] m
  have "max_loop (cfg_cpu\<lparr>ignore_cls := [0]\<rparr>) < max_loop cfg_cpu
      \<and> keep_cls (cfg_cpu\<lparr>ignore_cls := [0]\<rparr>)
          = filter (\<lambda>cls_idx. cls_idx \<notin> set [0]) (keep_cls cfg_cpu)"
    by blast
  with h m show ?thesis
    by (simp add: cfg_cpu_locals)
qed

section \<open>The two copies of the helpers\<close>

lemma uncertainty_score_eq: "uncertainty_score C p = uncertainty C p"
  by (simp add: uncertainty_score_def uncertainty_def)

lemma locals_score_eq:
  "n_device_score cfg = n_device cfg" "d_batch_size_score cfg = d_batch_size cfg"
  "max_loop_score cfg = max_loop cfg" "keep_cls_score cfg = keep_cls cfg"
  by (simp_all add: n_device_score_def n_device_def d_batch_size_score_def d_batch_size_def
      max_loop_score_def max_loop_def keep_cls_score_def keep_cls_def)

lemma inner_loop_score_eq:
  "inner_loop_score cfg bp loop source us acc = inner_loop cfg bp loop source us acc"
proof (induction cfg bp loop source us acc rule: inner_loop.induct)
  case (1 cfg batch_probs loop source acc)
  show ?case by simp
next
  case (2 cfg batch_probs loop source u unfinished probs sources i next_unfinished)
  show ?case
  proof (cases "i < length batch_probs")
    case False
    then show ?thesis by simp
  next
    case in_range: True
    show ?thesis
    proof (cases "batch_probs ! i")
      case Nil
      with in_range show ?thesis by simp
    next
      case (Cons p0 ps)
      show ?thesis
      proof (cases "uncertainty (label_size cfg) p0 < speed cfg \<or> int loop = max_loop cfg - 1")
        case exit: True
        show ?thesis
        proof (cases "u < length probs")
          case False
          with in_range Cons exit show ?thesis
            by (simp add: uncertainty_score_eq locals_score_eq)
        next
          case True
          show ?thesis
          proof (cases "assign_row (label_size cfg) (batch_probs ! i)")
            case (Inl e)
            with in_range Cons exit True show ?thesis
              by (simp add: uncertainty_score_eq locals_score_eq)
          next
            case (Inr row)
            from "2.IH"(1) [OF in_range Cons exit True Inr] in_range Cons exit True Inr
            show ?thesis
              by (simp add: uncertainty_score_eq locals_score_eq)
          qed
        qed
      next
        case False
        from "2.IH"(2) [OF in_range Cons False] in_range Cons False
        show ?thesis
          by (simp add: uncertainty_score_eq locals_score_eq)
      qed
    qed
  qed
qed

lemma cascade_score_eq:
  "cascade_score cfg bp ls us st = cascade cfg bp ls us st"
  by (induction ls arbitrary: us st)
    (simp_all add: inner_loop_score_eq locals_score_eq split: sum.splits prod.splits)

lemma devices_score_eq:
  "devices_score cfg bp ds st = devices cfg bp ds st"
proof (induction ds arbitrary: st)
  case Nil
  show ?case by simp
next
  case (Cons d ds)
  obtain probs sources i where st: "st = (probs, sources, i)"
    by (cases st) auto
  show ?case
    unfolding st
    by (simp add: cascade_score_eq locals_score_eq Cons.IH split: sum.splits prod.splits)
qed

text \<open>
  C10. The helpers inside \<^verbatim>\<open>_get_score_outputs\<close> compute the same functions as those
  inside \<^verbatim>\<open>_get_predict_outputs\<close>: the two \<^verbatim>\<open>_uncertainty\<close> agree on every input, and
  the two \<^verbatim>\<open>_permutate\<close> return the same tables, or raise the same error, for every
  stream and every configuration.
\<close>

theorem predict_score_equivalence:
  "uncertainty_score C p = uncertainty C p \<and> permutate_score cfg batch_probs = permutate cfg batch_probs"
  by (simp add: uncertainty_score_eq permutate_score_def permutate_def devices_score_eq
      locals_score_eq)

section \<open>What the score is given\<close>

lemma assign_row_widths:
  "length r2 = length r \<Longrightarrow>
     rel_sum (=) (\<lambda>_ _. True) (assign_row w r) (assign_row w r2)"
  by (simp add: assign_row_def)

lemma inner_loop_first_components:
  assumes len: "length bp2 = length bp"
    and rows: "\<forall>j<length bp. length (bp2 ! j) = length (bp ! j) \<and> bp2 ! j ! 0 = bp ! j ! 0"
  shows "length probs2 = length probs \<Longrightarrow>
    same_routing (inner_loop cfg bp loop source us ((probs, sources, i), nxt))
      (inner_loop cfg bp2 loop source us ((probs2, sources, i), nxt))"
proof (induction us arbitrary: probs probs2 sources i nxt)
  case Nil
  then show ?case by simp
next
  case (Cons u us)
  show ?case
  proof (cases "i < length bp")
    case False
    with len show ?thesis by simp
  next
    case in_range: True
    with rows have r: "length (bp2 ! i) = length (bp ! i)" "bp2 ! i ! 0 = bp ! i ! 0"
      by simp_all
    show ?thesis
    proof (cases "bp ! i")
      case Nil
      with r have "bp2 ! i = []" by simp
      with Nil in_range len show ?thesis by simp
    next
      case row: (Cons p0 ps)
      with r obtain ps2 where row2: "bp2 ! i = p0 # ps2"
        by (cases "bp2 ! i") auto
      show ?thesis
      proof (cases "uncertainty (label_size cfg) p0 < speed cfg \<or> int loop = max_loop cfg - 1")
        case False
        with Cons.IH [OF Cons.prems, of sources "i + 1" "nxt @ [u]"] in_range len row row2
        show ?thesis by simp
      next
        case exit: True
        show ?thesis
        proof (cases "u < length probs")
          case False
          with in_range len row row2 exit Cons.prems show ?thesis by simp
        next
          case True
          from assign_row_widths [OF r(1), of "label_size cfg"]
          consider (err) e where "assign_row (label_size cfg) (bp ! i) = Inl e"
              "assign_row (label_size cfg) (bp2 ! i) = Inl e"
            | (ok) v v2 where "assign_row (label_size cfg) (bp ! i) = Inr v"
              "assign_row (label_size cfg) (bp2 ! i) = Inr v2"
            by (cases "assign_row (label_size cfg) (bp ! i)";
                cases "assign_row (label_size cfg) (bp2 ! i)") auto
          then show ?thesis
          proof cases
            case err
            with in_range len row row2 exit True Cons.prems show ?thesis by simp
          next
            case ok
            have "length (probs2[u := v2]) = length (probs[u := v])"
              using Cons.prems by simp
            from Cons.IH [OF this, of "sources[u := source]" "i + 1" nxt]
              in_range len row row2 exit True Cons.prems ok
            show ?thesis by simp
          qed
        qed
      qed
    qed
  qed
qed

lemma same_routing_cases:
  assumes "same_routing x y"
  obtains (err) e where "x = Inl e" "y = Inl e"
    | (ok) p s i n p2 where "x = Inr ((p, s, i), n)" "y = Inr ((p2, s, i), n)" "length p2 = length p"
  using assms by (cases x; cases y) auto

lemma cascade_first_components:
  assumes len: "length bp2 = length bp"
    and rows: "\<forall>j<length bp. length (bp2 ! j) = length (bp ! j) \<and> bp2 ! j ! 0 = bp ! j ! 0"
  shows "length probs2 = length probs \<Longrightarrow>
    same_routing (cascade cfg bp ls us (probs, sources, i))
      (cascade cfg bp2 ls us (probs2, sources, i))"
proof (induction ls arbitrary: us probs probs2 sources i)
  case Nil
  then show ?case by simp
next
  case (Cons loop ls)
  show ?case
  proof (cases "loop < length (keep_cls cfg)")
    case False
    then show ?thesis by simp
  next
    case True
    from inner_loop_first_components [OF len rows Cons.prems,
        of cfg loop "keep_cls cfg ! loop" us sources i "[]"]
    show ?thesis
    proof (cases rule: same_routing_cases)
      case (err e)
      with True show ?thesis by simp
    next
      case (ok p s i1 n p2)
      from Cons.IH [OF ok(3), of n s i1] ok(1,2) True show ?thesis by simp
    qed
  qed
qed

lemma devices_first_components:
  assumes len: "length bp2 = length bp"
    and rows: "\<forall>j<length bp. length (bp2 ! j) = length (bp ! j) \<and> bp2 ! j ! 0 = bp ! j ! 0"
  shows "length probs2 = length probs \<Longrightarrow>
    rel_sum (=) (\<lambda>(p, s, i) (p2, s2, i2). length p2 = length p \<and> s2 = s \<and> i2 = i)
      (devices cfg bp ds (probs, sources, i)) (devices cfg bp2 ds (probs2, sources, i))"
proof (induction ds arbitrary: probs probs2 sources i)
  case Nil
  then show ?case by simp
next
  case (Cons d ds)
  from cascade_first_components [OF len rows Cons.prems,
      of cfg "[0..<nat (max_loop cfg)]" "map (\<lambda>k. k + i) [0..<d_batch_size cfg]" sources i]
  show ?case
  proof (cases rule: same_routing_cases)
    case (err e)
    then show ?thesis by simp
  next
    case (ok p s i1 n p2)
    from Cons.IH [OF ok(3), of s i1] ok(1,2) show ?thesis by simp
  qed
qed

lemma permutate_first_components:
  assumes len: "length bp2 = length bp"
    and rows: "\<forall>j<length bp. length (bp2 ! j) = length (bp ! j) \<and> bp2 ! j ! 0 = bp ! j ! 0"
  shows "map_sum id snd (permutate cfg bp2) = map_sum id snd (permutate cfg bp)"
proof -
  have "rel_sum (=) (\<lambda>(p, s, i) (p2, s2, i2). length p2 = length p \<and> s2 = s \<and> i2 = i)
      (devices cfg bp [0..<n_device cfg] (zeros cfg)) (devices cfg bp2 [0..<n_device cfg] (zeros cfg))"
    by (rule devices_first_components [OF len rows]) simp
  then show ?thesis
    by (cases "devices cfg bp [0..<n_device cfg] (zeros cfg)";
        cases "devices cfg bp2 [0..<n_device cfg] (zeros cfg)")
      (auto simp: permutate_def len)
qed

lemma uncertainty_four_half: "uncertainty 4 (1 / 2) = 1 / 2"
proof -
  have "\<not> (1 / 2 < tiny)" "\<not> (1 - 1 / 2 < tiny)"
    using tiny_less_half by simp_all
  then have "uncertainty 4 (1 / 2) = ln (1 / 2) / ln (1 / 4)"
    unfolding uncertainty_def Let_def by simp
  moreover have "ln (1 / 4 :: real) = 2 * ln (1 / 2)"
    using ln_realpow [of "1 / 2 :: real" 2] by (simp add: power2_eq_square)
  ultimately show ?thesis by simp
qed

lemma uncertainty_four_quarter: "uncertainty 4 (1 / 4) < 1 / 2"
proof -
  let ?a = "ln (3 / 4 :: real)" and ?b = "ln (1 / 4 :: real)"
  have "\<not> (1 / 4 < tiny)" "\<not> (1 - 1 / 4 < tiny)"
    by (simp_all add: tiny_def)
  then have u: "uncertainty 4 (1 / 4) = (1 / 4 * ?b + 3 / 4 * ?a) / ?b"
    unfolding uncertainty_def Let_def by simp
  have b: "?b < 0" by simp
  have "ln (1 / 4 :: real) < ln ((3 / 4) ^ 3)"
    by (subst ln_less_cancel_iff) (simp_all add: power3_eq_cube)
  also have "\<dots> = 3 * ?a"
    using ln_realpow [of "3 / 4 :: real" 3] by simp
  finally have "1 / 2 * ?b < 1 / 4 * ?b + 3 / 4 * ?a"
    by simp
  with b have "(1 / 4 * ?b + 3 / 4 * ?a) / ?b < 1 / 2"
    by (simp add: divide_less_eq)
  with u show ?thesis by simp
qed

lemma cfg_four_labels_locals:
  "n_device cfg_four_labels = 1" "d_batch_size cfg_four_labels = 1" "max_loop cfg_four_labels = 2"
  "keep_cls cfg_four_labels = [0, 1]" "batch_size cfg_four_labels = 1"
  "label_size cfg_four_labels = 4" "speed cfg_four_labels = 1 / 2"
  by (simp_all add: n_device_def d_batch_size_def max_loop_def keep_cls_def cfg_four_labels_def
      eval_nat_numeral)

lemma single_step_decision:
  assumes "inner_loop cfg bp loop source [u] ((probs, sources, i), nxt)
      = Inr ((probs', sources', i'), nxt')"
  shows "nxt' = nxt \<longleftrightarrow>
      uncertainty (label_size cfg) (bp ! i ! 0) < speed cfg \<or> int loop = max_loop cfg - 1"
proof -
  note step = inner_loop_step [OF assms]
  then have "hd (bp ! i) = bp ! i ! 0"
    by (simp add: hd_conv_nth)
  with step show ?thesis
    by (auto split: if_splits)
qed

text \<open>
  C4, as the code has it. The scalar given to \<^verbatim>\<open>_uncertainty\<close> is
  \<^verbatim>\<open>batch_probs[i][0]\<close>, the first component of the example's probability vector (the
  probability of label 0), for every vector and every \<^verbatim>\<open>label_size\<close>: the exit
  decision for one example is taken on that component, it is the top-class
  probability whenever no component of the vector exceeds the first one, and the
  sources and the outcome of \<^verbatim>\<open>_permutate\<close> do not change when the other components
  of the vectors change.
\<close>

theorem scorer_reads_first_component:
  "(\<forall>loop source u probs sources i nxt probs' sources' i' nxt'.
      inner_loop cfg bp loop source [u] ((probs, sources, i), nxt)
          = Inr ((probs', sources', i'), nxt') \<longrightarrow>
        (nxt' = nxt \<longleftrightarrow>
           uncertainty (label_size cfg) (bp ! i ! 0) < speed cfg \<or> int loop = max_loop cfg - 1)
        \<and> ((\<forall>x \<in> set (bp ! i). x \<le> bp ! i ! 0) \<longrightarrow> bp ! i ! 0 = Max (set (bp ! i))))
   \<and> (\<forall>bp2. length bp2 = length bp
          \<and> (\<forall>j<length bp. length (bp2 ! j) = length (bp ! j) \<and> bp2 ! j ! 0 = bp ! j ! 0) \<longrightarrow>
        map_sum id snd (permutate cfg bp2) = map_sum id snd (permutate cfg bp))"
proof (intro conjI allI impI)
  fix loop source u probs sources i nxt probs' sources' i' nxt'
  assume run: "inner_loop cfg bp loop source [u] ((probs, sources, i), nxt)
      = Inr ((probs', sources', i'), nxt')"
  then show "nxt' = nxt \<longleftrightarrow>
      uncertainty (label_size cfg) (bp ! i ! 0) < speed cfg \<or> int loop = max_loop cfg - 1"
    by (rule single_step_decision)
  assume top: "\<forall>x \<in> set (bp ! i). x \<le> bp ! i ! 0"
  from inner_loop_step [OF run] have "bp ! i ! 0 \<in> set (bp ! i)"
    by simp
  with top show "bp ! i ! 0 = Max (set (bp ! i))"
    by (intro Max_eqI [symmetric]) simp_all
next
  fix bp2
  assume "length bp2 = length bp
    \<and> (\<forall>j<length bp. length (bp2 ! j) = length (bp ! j) \<and> bp2 ! j ! 0 = bp ! j ! 0)"
  then show "map_sum id snd (permutate cfg bp2) = map_sum id snd (permutate cfg bp)"
    by (intro permutate_first_components) simp_all
qed

theorem scorer_reads_first_component_witness:
  "inner_loop cfg_four_labels [[1 / 2, 1 / 4, 1 / 4, 0]] 0 0 [0] (([[0, 0, 0, 0]], [0], 0), [])
      = Inr (([[0, 0, 0, 0]], [0], 1), [0])
   \<and> [[1 / 2, 1 / 4, 1 / 4, 0 :: real]] ! 0 ! 0 = Max (set ([[1 / 2, 1 / 4, 1 / 4, 0]] ! 0))
   \<and> \<not> uncertainty (label_size cfg_four_labels) ([[1 / 2, 1 / 4, 1 / 4, 0]] ! 0 ! 0)
         < speed cfg_four_labels
   \<and> length [[1 / 2, 1 / 2, 0, 0 :: real]] = length [[1 / 2, 1 / 4, 1 / 4, 0 :: real]]
   \<and> map_sum id snd (permutate cfg_four_labels [[1 / 2, 1 / 2, 0, 0]])
       = map_sum id snd (permutate cfg_four_labels [[1 / 2, 1 / 4, 1 / 4, 0]])"
proof -
  let ?bp = "[[1 / 2, 1 / 4, 1 / 4, 0 :: real]]"
  have run: "inner_loop cfg_four_labels ?bp 0 0 [0] (([[0, 0, 0, 0]], [0], 0), [])
      = Inr (([[0, 0, 0, 0]], [0], 1), [0])"
    by (simp add: cfg_four_labels_locals assign_row_def uncertainty_four_half)
  have top: "\<forall>x \<in> set (?bp ! 0). x \<le> ?bp ! 0 ! 0"
    by simp
  have agree: "length [[1 / 2, 1 / 2, 0, 0 :: real]] = length ?bp
    \<and> (\<forall>j<length ?bp. length ([[1 / 2, 1 / 2, 0, 0 :: real]] ! j) = length (?bp ! j)
          \<and> [[1 / 2, 1 / 2, 0, 0 :: real]] ! j ! 0 = ?bp ! j ! 0)"
    by simp
  note t = scorer_reads_first_component [of cfg_four_labels ?bp]
  from t run have "([0] = ([] :: nat list) \<longleftrightarrow>
      uncertainty (label_size cfg_four_labels) (?bp ! 0 ! 0) < speed cfg_four_labels
        \<or> int 0 = max_loop cfg_four_labels - 1)
    \<and> ((\<forall>x \<in> set (?bp ! 0). x \<le> ?bp ! 0 ! 0) \<longrightarrow> ?bp ! 0 ! 0 = Max (set (?bp ! 0)))"
    by blast
  with top have a: "\<not> uncertainty (label_size cfg_four_labels) (?bp ! 0 ! 0) < speed cfg_four_labels"
    and b: "?bp ! 0 ! 0 = Max (set (?bp ! 0))"
    by simp_all
  from t agree have "map_sum id snd (permutate cfg_four_labels [[1 / 2, 1 / 2, 0, 0]])
       = map_sum id snd (permutate cfg_four_labels ?bp)"
    by blast
  with run a b show ?thesis
    by simp
qed

text \<open>
  The claim as worded fails: with four labels and \<^verbatim>\<open>speed = 0.5\<close>, the vector
  \<open>[0.25, 0.5, 0.25, 0]\<close> is resolved at the first of two classifiers (source 0, one
  vector consumed), although the exit test on its top-class probability \<open>0.5\<close> is
  false there: the score was given \<open>0.25\<close>.
\<close>

theorem scorer_top_class_counterexample:
  "permutate cfg_four_labels [second_label_leads] = Inr ([second_label_leads], [0])
    \<and> inner_loop cfg_four_labels [second_label_leads] 0 0 [0] (([[0, 0, 0, 0]], [0], 0), [])
      = Inr (([second_label_leads], [0], 1), [])
    \<and> \<not> (uncertainty (label_size cfg_four_labels) (Max (set second_label_leads))
            < speed cfg_four_labels \<or> int 0 = max_loop cfg_four_labels - 1)"
proof -
  have z: "replicate 4 (0 :: real) = [0, 0, 0, 0]"
    by (simp add: eval_nat_numeral)
  show ?thesis
    using uncertainty_four_quarter
    by (simp add: permutate_def cfg_four_labels_locals second_label_leads_def assign_row_def
        uncertainty_four_half upt_rec z)
qed

end
